theory Spec2Isabelle
  imports Complex_Main "HOL-Library.Log_Nat" "HOL-Library.AList"
begin

section \<open>JavaScript numbers\<close>

text \<open>
  The front end computes with JavaScript numbers, which are IEEE 754 binary64 values. A
  finite double is modelled by the rational it denotes, and every arithmetic operation
  rounds its exact result to the nearest double, ties to even (\<open>rnd\<close>). The exponent is
  left unbounded: the values computed by the modelled code are far from overflow and
  underflow.
\<close>

definition round_half_even :: "rat \<Rightarrow> int" where
  "round_half_even q =
     (let f = \<lfloor>q\<rfloor>; d = q - of_int f
      in if d < 1/2 then f else if 1/2 < d then f + 1 else if even f then f else f + 1)"

definition ilog2 :: "rat \<Rightarrow> int" where
  "ilog2 x =
     (let (a, b) = quotient_of x; e0 = bitlen a - bitlen b
      in if 2 powi e0 \<le> x then e0 else e0 - 1)"

definition rnd :: "rat \<Rightarrow> rat" where
  "rnd x =
     (if x = 0 then 0
      else let u = 2 powi (ilog2 \<bar>x\<bar> - 52)
           in sgn x * of_int (round_half_even (\<bar>x\<bar> / u)) * u)"

subsection \<open>Properties of rounding\<close>

lemma round_half_even_err: "\<bar>of_int (round_half_even q) - q\<bar> \<le> 1/2"
proof -
  have "of_int \<lfloor>q\<rfloor> \<le> q" "q < of_int \<lfloor>q\<rfloor> + 1" by linarith+
  then show ?thesis
    unfolding round_half_even_def Let_def by (simp split: if_splits)
qed

lemma round_half_even_of_int [simp]: "round_half_even (of_int k) = k"
  by (simp add: round_half_even_def)

lemma round_half_even_nonneg: "0 \<le> q \<Longrightarrow> 0 \<le> round_half_even q"
  unfolding round_half_even_def Let_def by (simp split: if_splits)

lemma bitlen_pos: "0 < a \<Longrightarrow> 1 \<le> bitlen a"
  using bitlen_eq_zero_iff[of a] bitlen_nonneg[of a] by linarith

lemma bitlen_lower: "0 < a \<Longrightarrow> (2::rat) powi (bitlen a - 1) \<le> of_int a"
proof -
  assume a: "0 < a"
  from bitlen_bounds[OF a] have "(2::int) ^ nat (bitlen a - 1) \<le> a" by simp
  then have "(of_int ((2::int) ^ nat (bitlen a - 1)) :: rat) \<le> of_int a" by (simp only: of_int_le_iff)
  with bitlen_pos[OF a] show ?thesis by (simp add: power_int_def)
qed

lemma bitlen_upper: "0 < a \<Longrightarrow> of_int a < (2::rat) powi (bitlen a)"
proof -
  assume a: "0 < a"
  with bitlen_bounds[OF a] have "a < (2::int) ^ nat (bitlen a)" by simp
  then have "(of_int a :: rat) < of_int ((2::int) ^ nat (bitlen a))" by (simp only: of_int_less_iff)
  then show ?thesis using bitlen_nonneg[of a] by (simp add: power_int_def)
qed


lemma ilog2_bounds:
  assumes "0 < x"
  shows "2 powi (ilog2 x) \<le> x \<and> x < 2 powi (ilog2 x + 1)"
proof -
  obtain a b where q: "quotient_of x = (a, b)" by (cases "quotient_of x")
  then have b: "0 < b" and x: "x = of_int a / of_int b"
    using quotient_of_denom_pos quotient_of_div by auto
  from assms x b have a: "0 < a" by (simp add: zero_less_divide_iff)
  let ?e = "bitlen a - bitlen b"
  have lo: "(2::rat) powi (?e - 1) \<le> x"
  proof -
    have "(2::rat) powi (?e - 1) = 2 powi (bitlen a - 1) / 2 powi (bitlen b)"
      by (simp add: power_int_diff)
    also have "\<dots> \<le> of_int a / 2 powi (bitlen b)"
      using bitlen_lower[OF a] by (simp add: divide_right_mono)
    also have "\<dots> \<le> of_int a / of_int b"
      using bitlen_upper[OF b] a b by (intro divide_left_mono) auto
    finally show ?thesis by (simp add: x)
  qed
  have hi: "x < (2::rat) powi (?e + 1)"
  proof -
    have "x = of_int a / of_int b" by (rule x)
    also have "\<dots> < 2 powi (bitlen a) / of_int b"
      using bitlen_upper[OF a] b by (simp add: divide_strict_right_mono)
    also have "\<dots> \<le> 2 powi (bitlen a) / 2 powi (bitlen b - 1)"
      using bitlen_lower[OF b] b by (intro divide_left_mono) auto
    also have "\<dots> = 2 powi (?e + 1)"
      by (simp add: power_int_diff power_int_add)
    finally show ?thesis .
  qed
  show ?thesis
  proof (cases "(2::rat) powi ?e \<le> x")
    case True
    then have "ilog2 x = ?e" by (simp add: ilog2_def q)
    with True hi show ?thesis by simp
  next
    case False
    then have "ilog2 x = ?e - 1" by (simp add: ilog2_def q)
    with False lo show ?thesis by simp
  qed
qed


lemma rnd_nonneg: "0 \<le> x \<Longrightarrow> 0 \<le> rnd x"
  by (simp add: rnd_def Let_def sgn_if round_half_even_nonneg)

lemma rnd_err: "\<bar>rnd x - x\<bar> \<le> \<bar>x\<bar> / 2 ^ 53"
proof (cases "x = 0")
  case True
  then show ?thesis by (simp add: rnd_def)
next
  case False
  define u :: rat where "u = 2 powi (ilog2 \<bar>x\<bar> - 52)"
  define r where "r = round_half_even (\<bar>x\<bar> / u)"
  have u: "0 < u" by (simp add: u_def)
  have rn: "rnd x = sgn x * of_int r * u"
    using False by (simp add: rnd_def Let_def u_def r_def)
  have "\<bar>of_int r - \<bar>x\<bar> / u\<bar> \<le> 1/2"
    unfolding r_def by (rule round_half_even_err)
  then have "\<bar>of_int r - \<bar>x\<bar> / u\<bar> * u \<le> 1/2 * u"
    using u by (intro mult_right_mono) auto
  moreover have "\<bar>of_int r - \<bar>x\<bar> / u\<bar> * u = \<bar>of_int r * u - \<bar>x\<bar>\<bar>"
  proof -
    have "(of_int r - \<bar>x\<bar> / u) * u = of_int r * u - \<bar>x\<bar>"
      using u by (simp add: left_diff_distrib)
    then have "\<bar>of_int r * u - \<bar>x\<bar>\<bar> = \<bar>of_int r - \<bar>x\<bar> / u\<bar> * \<bar>u\<bar>"
      by (simp only: abs_mult[symmetric])
    with u show ?thesis by simp
  qed
  ultimately have "\<bar>of_int r * u - \<bar>x\<bar>\<bar> \<le> u / 2" by simp
  moreover have "\<bar>rnd x - x\<bar> = \<bar>of_int r * u - \<bar>x\<bar>\<bar>"
    using False by (cases "0 < x") (auto simp: rn sgn_if)
  moreover have "u / 2 \<le> \<bar>x\<bar> / 2 ^ 53"
  proof -
    have "2 powi (ilog2 \<bar>x\<bar>) \<le> \<bar>x\<bar>" using ilog2_bounds[of "\<bar>x\<bar>"] False by simp
    moreover have "u = 2 powi (ilog2 \<bar>x\<bar>) / 2 ^ 52" by (simp add: u_def power_int_diff)
    ultimately show ?thesis by (simp add: field_simps)
  qed
  ultimately show ?thesis by linarith
qed


lemma rnd_of_int:
  assumes "\<bar>k\<bar> < 2 ^ 53"
  shows "rnd (of_int k) = of_int k"
proof (cases "k = 0")
  case True
  then show ?thesis by (simp add: rnd_def)
next
  case False
  define e where "e = ilog2 \<bar>of_int k\<bar>"
  have pos: "(0::rat) < \<bar>of_int k\<bar>" using False by simp
  from ilog2_bounds[OF pos] have lo: "(2::rat) powi e \<le> \<bar>of_int k\<bar>" by (simp add: e_def)
  have "(of_int \<bar>k\<bar> :: rat) < of_int (2 ^ 53)"
    using assms by (simp only: of_int_less_iff)
  then have "(\<bar>of_int k\<bar> :: rat) < 2 powi 53" by simp
  with lo have "(2::rat) powi e < 2 powi 53" by simp
  then have e: "e < 53" by (rule power_int_le_imp_less_exp[rotated]) simp_all
  define m :: int where "m = 2 ^ nat (52 - e)"
  have u: "(2::rat) powi (e - 52) = 1 / of_int m"
  proof -
    have "(2::rat) powi (e - 52) = inverse (2 powi (52 - e))"
      by (simp add: power_int_minus[symmetric])
    also have "(2::rat) powi (52 - e) = of_int m"
      using e by (simp add: m_def power_int_def)
    finally show ?thesis by (simp add: inverse_eq_divide)
  qed
  have m: "0 < m" by (simp add: m_def)
  have "\<bar>of_int k :: rat\<bar> / 2 powi (e - 52) = of_int (\<bar>k\<bar> * m)"
    by (simp add: u)
  then have "round_half_even (\<bar>of_int k :: rat\<bar> / 2 powi (e - 52)) = \<bar>k\<bar> * m"
    by (simp only: round_half_even_of_int)
  then have "rnd (of_int k) = sgn (of_int k) * of_int (\<bar>k\<bar> * m) * (1 / of_int m)"
    using False by (simp add: rnd_def Let_def e_def[symmetric] u)
  also have "\<dots> = of_int k"
    using m by (cases "0 < k") (auto simp: sgn_if)
  finally show ?thesis .
qed

subsection \<open>Numbers with NaN and their operations\<close>

text \<open>
  \<open>NaN\<close> is the only non-finite value the modelled code can produce (from \<open>charCodeAt(0)\<close>
  of an empty string); it propagates through arithmetic and makes every comparison
  false. No division of the source has a zero divisor (the divisors are the literal
  \<open>10\<close>, \<open>totalShots = 1024\<close>, a qubit count that \<open>||\<close> has made non-zero, and a width
  guarded by \<open>> 0\<close>), so the model has no infinities and \<open>num_div\<close> yields \<open>NaN\<close> there.
\<close>

datatype number = Fin rat | NaN

definition dbl :: "rat \<Rightarrow> number" where
  "dbl q = Fin (rnd q)"

fun num_add :: "number \<Rightarrow> number \<Rightarrow> number" where
  "num_add (Fin x) (Fin y) = Fin (rnd (x + y))"
| "num_add _ _ = NaN"

fun num_sub :: "number \<Rightarrow> number \<Rightarrow> number" where
  "num_sub (Fin x) (Fin y) = Fin (rnd (x - y))"
| "num_sub _ _ = NaN"

fun num_mul :: "number \<Rightarrow> number \<Rightarrow> number" where
  "num_mul (Fin x) (Fin y) = Fin (rnd (x * y))"
| "num_mul _ _ = NaN"

fun num_div :: "number \<Rightarrow> number \<Rightarrow> number" where
  "num_div (Fin x) (Fin y) = (if y = 0 then NaN else Fin (rnd (x / y)))"
| "num_div _ _ = NaN"

definition trunc :: "rat \<Rightarrow> int" where
  "trunc q = (if 0 \<le> q then \<lfloor>q\<rfloor> else \<lceil>q\<rceil>)"

fun num_mod :: "number \<Rightarrow> number \<Rightarrow> number" where
  "num_mod (Fin x) (Fin y) = (if y = 0 then NaN else Fin (x - y * of_int (trunc (x / y))))"
| "num_mod _ _ = NaN"

fun num_less :: "number \<Rightarrow> number \<Rightarrow> bool" where
  "num_less (Fin x) (Fin y) = (x < y)"
| "num_less _ _ = False"

fun Math_floor :: "number \<Rightarrow> number" where
  "Math_floor (Fin x) = Fin (of_int \<lfloor>x\<rfloor>)"
| "Math_floor NaN = NaN"

fun Math_min :: "number \<Rightarrow> number \<Rightarrow> number" where
  "Math_min (Fin x) (Fin y) = Fin (min x y)"
| "Math_min _ _ = NaN"

fun Math_max :: "number \<Rightarrow> number \<Rightarrow> number" where
  "Math_max (Fin x) (Fin y) = Fin (max x y)"
| "Math_max _ _ = NaN"

definition pow2 :: "int \<Rightarrow> rat" where
  "pow2 n = 2 powi n"

subsection \<open>Strings\<close>

text \<open>
  A JavaScript string is a \<open>string\<close> whose characters stand for code units
  (\<open>charCodeAt\<close> reads \<open>of_char\<close>). \<open>repeat\<close> raises \<open>RangeError\<close> on a negative
  count; \<open>padStart\<close> returns the string unchanged when it is already long enough;
  \<open>toString2\<close> is \<open>Number.prototype.toString(2)\<close>, which prints the exact binary
  expansion of a double (at most 1074 fractional bits).
\<close>

datatype exn = RangeError

definition repeat :: "char \<Rightarrow> int \<Rightarrow> exn + string" where
  "repeat c n = (if n < 0 then Inl RangeError else Inr (replicate (nat n) c))"

definition padStart :: "string \<Rightarrow> int \<Rightarrow> char \<Rightarrow> string" where
  "padStart s n c = (if n \<le> int (length s) then s else replicate (nat n - length s) c @ s)"

definition charCodeAt :: "string \<Rightarrow> nat \<Rightarrow> number" where
  "charCodeAt s i = (if i < length s then Fin (of_nat (of_char (s ! i))) else NaN)"

definition bit_char :: "nat \<Rightarrow> char" where
  "bit_char b = (if b = 0 then CHR ''0'' else CHR ''1'')"

fun int_digits :: "nat \<Rightarrow> string" where
  "int_digits n = (if n < 2 then [bit_char n] else int_digits (n div 2) @ [bit_char (n mod 2)])"

declare int_digits.simps [simp del]

fun frac_digits :: "nat \<Rightarrow> rat \<Rightarrow> string" where
  "frac_digits 0 f = []"
| "frac_digits (Suc k) f =
     (if f = 0 then []
      else let b = \<lfloor>2 * f\<rfloor> in bit_char (nat b) # frac_digits k (2 * f - of_int b))"

definition toString2 :: "rat \<Rightarrow> string" where
  "toString2 x =
     (let a = \<bar>x\<bar>; f = a - of_int \<lfloor>a\<rfloor>
      in (if x < 0 then ''-'' else '''') @ int_digits (nat \<lfloor>a\<rfloor>) @
         (if f = 0 then '''' else ''.'' @ frac_digits 1074 f))"

section \<open>The measurement distribution synthesizer (SimulationResults.tsx)\<close>

text \<open>
  The synthesizer is the body of \<open>handleRunSimulation\<close>:
  \<^verbatim>\<open>
  const numQubits = circuitData.num_qubits ||
                   (circuitData as any).parameters?.num_qubits || 3;
  let counts: SimulationCounts = {};
  const totalShots = 1024;
  if (circuitData.circuit_type === 'bell_state') {
    counts['00'] = Math.floor(totalShots * 0.48);
    counts['11'] = totalShots - counts['00'];
  } else if (circuitData.circuit_type === 'ghz_state') {
    const zeros = '0'.repeat(numQubits);
    const ones = '1'.repeat(numQubits);
    counts[zeros] = Math.floor(totalShots * 0.48);
    counts[ones] = totalShots - counts[zeros];
  } else if (circuitData.circuit_type === 'w_state') {
    const totalStates = numQubits;
    const baseCount = Math.floor(totalShots / totalStates);
    let remainingShots = totalShots;
    for (let i = 0; i < numQubits; i++) {
      let stateString = '0'.repeat(numQubits).split('');
      stateString[i] = '1';
      const state = stateString.join('');
      if (i < numQubits - 1) {
        counts[state] = baseCount;
        remainingShots -= baseCount;
      } else {
        counts[state] = remainingShots;
      }
    }
  } else {
    const maxStates = Math.min(2 ** numQubits, 16);
    let remainingShots = totalShots;
    for (let i = 0; i < maxStates - 1; i++) {
      const stateKey = i.toString(2).padStart(numQubits, '0');
      const factor = (circuitData.circuit_type.charCodeAt(0) % 10) / 10;
      const count = Math.floor(remainingShots * (0.1 + (i % 3) * 0.2 * factor));
      counts[stateKey] = Math.min(count, remainingShots);
      remainingShots -= counts[stateKey];
    }
    if (remainingShots > 0) {
      const lastStateKey = (maxStates - 1).toString(2).padStart(numQubits, '0');
      counts[lastStateKey] = remainingShots;
    }
  }
  \<close>
  It runs inside a \<open>try\<close> whose \<open>catch\<close> shows the message
  \<open>Failed to run simulation. Please try again.\<close>; the result object holds \<open>counts\<close>,
  \<open>numQubits\<close>, \<open>totalShots\<close> and \<open>probabilities\<close>, each count divided by \<open>totalShots\<close>.

  The \<open>counts\<close> object is an association list built by property assignment:
  \<open>AList.update\<close> overwrites an existing key in place and appends a new one, and \<open>lookup\<close>
  reads a property (\<open>undefined\<close> coerces to \<open>NaN\<close> in arithmetic). The list keeps
  insertion order; nothing below depends on the order in which \<open>Object.entries\<close>
  enumerates the keys.

  \<open>num_qubits\<close> and \<open>parameters.num_qubits\<close> are integers that may be absent (\<open>None\<close>);
  \<open>a || b\<close> takes \<open>a\<close> unless it is absent or zero (\<open>or_else\<close>). The qubit count is an
  integer of any sign; strings have no length limit in the model.

  \<open>2 ** numQubits\<close> is the exact power in \<open>maxStates\<close>: where the double overflows to
  infinity the minimum with 16 is 16 either way, and where it underflows to zero the
  rounded \<open>maxStates - 1\<close> is \<open>-1\<close> either way.
\<close>

type_synonym SimulationCounts = "(string \<times> number) list"

definition lookup :: "SimulationCounts \<Rightarrow> string \<Rightarrow> number" where
  "lookup counts k = (case map_of counts k of Some v \<Rightarrow> v | None \<Rightarrow> NaN)"

record CircuitResponse =
  circuit_type :: string
  num_qubits :: "int option"
  parameters_num_qubits :: "int option"
  explanation :: string
  visualization :: string
  exports :: string
  error_field :: "string option"


definition or_else :: "int option \<Rightarrow> int \<Rightarrow> int" where
  "or_else v d = (case v of None \<Rightarrow> d | Some k \<Rightarrow> if k \<noteq> 0 then k else d)"

definition resolve_numQubits :: "CircuitResponse \<Rightarrow> int" where
  "resolve_numQubits circuitData =
     or_else (num_qubits circuitData) (or_else (parameters_num_qubits circuitData) 3)"

definition total_shots :: number where
  "total_shots = Fin 1024"

definition lit_0_48 :: number where
  "lit_0_48 = dbl (48 / 100)"

definition lit_0_1 :: number where
  "lit_0_1 = dbl (1 / 10)"

definition lit_0_2 :: number where
  "lit_0_2 = dbl (2 / 10)"

definition bell_counts :: SimulationCounts where
  "bell_counts =
     (let counts = AList.update ''00'' (Math_floor (num_mul total_shots lit_0_48)) [];
          counts = AList.update ''11'' (num_sub total_shots (lookup counts ''00'')) counts
      in counts)"

definition ghz_counts :: "int \<Rightarrow> exn + SimulationCounts" where
  "ghz_counts n =
     (case repeat CHR ''0'' n of
        Inl e \<Rightarrow> Inl e
      | Inr zeros \<Rightarrow>
          (case repeat CHR ''1'' n of
             Inl e \<Rightarrow> Inl e
           | Inr ones \<Rightarrow>
               (let counts = AList.update zeros (Math_floor (num_mul total_shots lit_0_48)) [];
                    counts = AList.update ones (num_sub total_shots (lookup counts zeros)) counts
                in Inr counts)))"

function w_loop ::
  "int \<Rightarrow> number \<Rightarrow> nat \<Rightarrow> SimulationCounts \<Rightarrow> number \<Rightarrow> exn + SimulationCounts" where
  "w_loop n baseCount i counts remainingShots =
     (if int i < n then
        (case repeat CHR ''0'' n of
           Inl e \<Rightarrow> Inl e
         | Inr zs \<Rightarrow>
             (let state = zs[i := CHR ''1'']
              in if int i < n - 1
                 then w_loop n baseCount (Suc i) (AList.update state baseCount counts)
                        (num_sub remainingShots baseCount)
                 else w_loop n baseCount (Suc i) (AList.update state remainingShots counts)
                        remainingShots))
      else Inr counts)"
  by pat_completeness auto
termination
  by (relation "measure (\<lambda>(n, b, i, c, r). nat n - i)") auto

declare w_loop.simps [simp del]

definition w_counts :: "int \<Rightarrow> exn + SimulationCounts" where
  "w_counts n =
     (let baseCount = Math_floor (num_div total_shots (Fin (of_int n)))
      in w_loop n baseCount 0 [] total_shots)"

definition maxStates :: "int \<Rightarrow> number" where
  "maxStates n = Math_min (Fin (pow2 n)) (Fin 16)"

lemma loop_bound:
  assumes "num_less (Fin (of_nat i)) (num_sub (maxStates n) (Fin 1))"
  shows "i < 16"
proof -
  define m :: rat where "m = min (pow2 n) 16"
  have m: "0 < m" "m \<le> 16" by (simp_all add: m_def pow2_def)
  have "\<bar>rnd (m - 1) - (m - 1)\<bar> \<le> \<bar>m - 1\<bar> / 2 ^ 53" by (rule rnd_err)
  with m have "rnd (m - 1) < 16" by (simp add: abs_if split: if_splits)
  moreover from assms have "of_nat i < rnd (m - 1)" by (simp add: maxStates_def m_def)
  ultimately have "(of_nat i :: rat) < of_nat 16" by simp
  then show ?thesis by (simp only: of_nat_less_iff)
qed

function other_loop ::
  "string \<Rightarrow> int \<Rightarrow> nat \<Rightarrow> SimulationCounts \<Rightarrow> number \<Rightarrow> SimulationCounts \<times> number" where
  "other_loop ct n i counts remainingShots =
     (if num_less (Fin (of_nat i)) (num_sub (maxStates n) (Fin 1)) then
        (let stateKey = padStart (toString2 (of_nat i)) n CHR ''0'';
             factor = num_div (num_mod (charCodeAt ct 0) (Fin 10)) (Fin 10);
             count = Math_floor (num_mul remainingShots
                       (num_add lit_0_1
                          (num_mul (num_mul (num_mod (Fin (of_nat i)) (Fin 3)) lit_0_2) factor)));
             counts = AList.update stateKey (Math_min count remainingShots) counts
         in other_loop ct n (Suc i) counts (num_sub remainingShots (lookup counts stateKey)))
      else (counts, remainingShots))"
  by pat_completeness auto
termination
  by (relation "measure (\<lambda>(ct, n, i, c, r). 16 - i)") (auto dest: loop_bound)

declare other_loop.simps [simp del]

definition other_counts :: "string \<Rightarrow> int \<Rightarrow> SimulationCounts" where
  "other_counts ct n =
     (case other_loop ct n 0 [] total_shots of
        (counts, remainingShots) \<Rightarrow>
          if num_less (Fin 0) remainingShots
          then (let lastStateKey =
                      (case num_sub (maxStates n) (Fin 1) of
                         Fin m \<Rightarrow> padStart (toString2 m) n CHR ''0''
                       | NaN \<Rightarrow> padStart ''NaN'' n CHR ''0'')
                in AList.update lastStateKey remainingShots counts)
          else counts)"

definition simulate_counts :: "string \<Rightarrow> int \<Rightarrow> exn + SimulationCounts" where
  "simulate_counts ct n =
     (if ct = ''bell_state'' then Inr bell_counts
      else if ct = ''ghz_state'' then ghz_counts n
      else if ct = ''w_state'' then w_counts n
      else Inr (other_counts ct n))"

record SimulationResult =
  counts :: SimulationCounts
  numQubits :: int
  totalShots :: number
  probabilities :: SimulationCounts

definition synthesize :: "string \<Rightarrow> int \<Rightarrow> exn + SimulationResult" where
  "synthesize ct n =
     (case simulate_counts ct n of
        Inl e \<Rightarrow> Inl e
      | Inr cs \<Rightarrow>
          Inr \<lparr>counts = cs, numQubits = n, totalShots = total_shots,
               probabilities = map (\<lambda>(state, count). (state, num_div count total_shots)) cs\<rparr>)"

definition handleRunSimulation :: "CircuitResponse option \<Rightarrow> (string + SimulationResult) option" where
  "handleRunSimulation circuitData =
     (case circuitData of
        None \<Rightarrow> None
      | Some cd \<Rightarrow>
          (case synthesize (circuit_type cd) (resolve_numQubits cd) of
             Inl e \<Rightarrow> Some (Inl ''Failed to run simulation. Please try again.'')
           | Inr r \<Rightarrow> Some (Inr r)))"

subsection \<open>The two-outcome branches\<close>

lemma floor_share_48: "Math_floor (num_mul total_shots lit_0_48) = Fin 491"
  by code_simp

lemma bell_counts_eq: "bell_counts = [(''00'', Fin 491), (''11'', Fin 533)]"
  by code_simp

lemma update_fresh: "k \<notin> fst ` set al \<Longrightarrow> AList.update k v al = al @ [(k, v)]"
  by (induction al) auto

lemma lookup_update [simp]: "lookup (AList.update k v al) k = v"
  by (simp add: lookup_def update_conv')

lemma ghz_counts_eq:
  assumes "1 \<le> n"
  shows "ghz_counts n =
    Inr [(replicate (nat n) CHR ''0'', Fin 491), (replicate (nat n) CHR ''1'', Fin 533)]"
proof -
  have ne: "replicate (nat n) CHR ''0'' \<noteq> replicate (nat n) CHR ''1''"
    using assms by (cases "nat n") auto
  have s: "num_sub total_shots (Fin 491) = Fin 533" by code_simp
  show ?thesis
    using assms ne by (simp add: ghz_counts_def repeat_def Let_def floor_share_48 lookup_def s)
qed


lemma floor_rnd_quotient:
  assumes n: "1 \<le> n"
  shows "\<lfloor>rnd (1024 / of_int n)\<rfloor> = 1024 div n"
proof -
  define k where "k = 1024 div n"
  define m where "m = 1024 mod n"
  define x :: rat where "x = 1024 / of_int n"
  have km: "1024 = k * n + m" and m: "0 \<le> m" "m < n"
    using n by (simp_all add: k_def m_def)
  have k0: "0 \<le> k"
    using n by (simp add: k_def pos_imp_zdiv_nonneg_iff)
  have "k * 1 \<le> k * n" using n k0 by (intro mult_left_mono) simp_all
  with km m have k: "\<bar>k\<bar> < 2 ^ 53" using k0 by simp
  have npos: "(0::rat) < of_int n" using n by simp
  have "of_int (1024::int) = (of_int (k * n + m) :: rat)" using km by simp
  then have xk: "x = of_int k + of_int m / of_int n"
    using npos by (simp add: x_def field_simps)
  show ?thesis
  proof (cases "m = 0")
    case True
    then have "x = of_int k" by (simp add: xk)
    moreover have "rnd (of_int k) = of_int k"
      using k by (rule rnd_of_int)
    ultimately show ?thesis by (simp add: x_def[symmetric] k_def)
  next
    case False
    with m have m1: "1 \<le> m" "m \<le> n - 1" by simp_all
    have lo: "of_int k + 1 / of_int n \<le> x"
      using m1 npos by (simp add: xk divide_right_mono)
    have "of_int m / (of_int n :: rat) \<le> of_int (n - 1) / of_int n"
    proof (rule divide_right_mono)
      show "(of_int m :: rat) \<le> of_int (n - 1)" using m1 by (simp only: of_int_le_iff)
      show "(0::rat) \<le> of_int n" using npos by simp
    qed
    then have hi: "x \<le> of_int k + 1 - 1 / of_int n"
      using npos by (simp add: xk diff_divide_distrib)
    have xpos: "0 < x" using npos by (simp add: x_def)
    have "x / 2 ^ 53 = (1024 / 2 ^ 53) * (1 / of_int n)" by (simp add: x_def)
    also have "\<dots> < 1 * (1 / of_int n)"
      using npos by (intro mult_strict_right_mono) simp_all
    finally have err: "x / 2 ^ 53 < 1 / of_int n" by simp
    have "\<bar>rnd x - x\<bar> \<le> \<bar>x\<bar> / 2 ^ 53" by (rule rnd_err)
    with xpos err have "\<bar>rnd x - x\<bar> < 1 / of_int n" by simp
    with lo hi have "of_int k < rnd x" "rnd x < of_int k + 1" by linarith+
    then have "\<lfloor>rnd x\<rfloor> = k" by (simp add: floor_unique)
    then show ?thesis by (simp add: x_def k_def)
  qed
qed

subsection \<open>The W-state loop\<close>

definition onehot :: "nat \<Rightarrow> nat \<Rightarrow> string" where
  "onehot n i = (replicate n CHR ''0'')[i := CHR ''1'']"

lemma onehot_inj:
  assumes "i < n" "j < n" "onehot n i = onehot n j"
  shows "i = j"
proof (rule ccontr)
  assume ne: "i \<noteq> j"
  have "onehot n i ! i = CHR ''1''" using assms(1) by (simp add: onehot_def)
  moreover have "onehot n j ! i = CHR ''0''" using assms(1) ne by (simp add: onehot_def)
  ultimately show False using assms(3) by simp
qed

lemma w_loop_closed:
  assumes "int i < n" "0 \<le> b" "(n - 1 - int i) * b \<le> r" "r \<le> 1024"
    and "fst ` set cs \<subseteq> onehot (nat n) ` {..<i}"
  shows "w_loop n (Fin (of_int b)) i cs (Fin (of_int r)) =
    Inr (cs @ map (\<lambda>j. (onehot (nat n) j, Fin (of_int b))) [i..<nat n - 1] @
         [(onehot (nat n) (nat n - 1), Fin (of_int (r - (n - 1 - int i) * b)))])"
  using assms
proof (induction "nat n - i" arbitrary: i cs r)
  case 0
  then show ?case by simp
next
  case (Suc d)
  have fresh: "onehot (nat n) i \<notin> fst ` set cs"
  proof
    assume "onehot (nat n) i \<in> fst ` set cs"
    with Suc.prems(5) obtain j where j: "j < i" "onehot (nat n) i = onehot (nat n) j" by auto
    have "i < nat n" using Suc.prems(1) by simp
    with j have "i = j" by (intro onehot_inj[of i "nat n" j]) simp_all
    with j show False by simp
  qed
  have rep: "repeat CHR ''0'' n = Inr (replicate (nat n) CHR ''0'')"
    using Suc.prems(1) by (simp add: repeat_def)
  show ?case
  proof (cases "int i < n - 1")
    case True
    have r0: "0 \<le> r - b" "b \<le> r"
    proof -
      have "1 * b \<le> (n - 1 - int i) * b" using True Suc.prems(2) by (intro mult_right_mono) simp_all
      with Suc.prems(3) show "0 \<le> r - b" "b \<le> r" by simp_all
    qed
    have "\<bar>r - b\<bar> < 2 ^ 53" using r0 Suc.prems(4) Suc.prems(2) by simp
    then have sub: "rnd (of_int r - of_int b) = of_int r - of_int b"
      using rnd_of_int[of "r - b"] by simp
    have keys: "fst ` set (cs @ [(onehot (nat n) i, Fin (of_int b))]) \<subseteq> onehot (nat n) ` {..<Suc i}"
      using Suc.prems(5) by (auto simp: lessThan_Suc)
    have step: "w_loop n (Fin (of_int b)) i cs (Fin (of_int r)) =
        w_loop n (Fin (of_int b)) (Suc i) (cs @ [(onehot (nat n) i, Fin (of_int b))]) (Fin (of_int (r - b)))"
      using True Suc.prems(1) fresh
      by (subst w_loop.simps) (simp add: rep Let_def onehot_def[symmetric] update_fresh sub)
    have d: "d = nat n - Suc i" using Suc.hyps(2) by simp
    have le: "(n - 1 - int (Suc i)) * b \<le> r - b"
      using Suc.prems(3) by (simp add: algebra_simps)
    have up: "[i..<nat n - 1] = i # [Suc i..<nat n - 1]"
      using True by (simp add: upt_conv_Cons)
    have r1: "r - b \<le> 1024" using Suc.prems(2,4) by simp
    have ih: "w_loop n (Fin (of_int b)) (Suc i) (cs @ [(onehot (nat n) i, Fin (of_int b))]) (Fin (of_int (r - b))) =
        Inr ((cs @ [(onehot (nat n) i, Fin (of_int b))]) @
             map (\<lambda>j. (onehot (nat n) j, Fin (of_int b))) [Suc i..<nat n - 1] @
             [(onehot (nat n) (nat n - 1), Fin (of_int (r - b - (n - 1 - int (Suc i)) * b)))])"
      using True by (intro Suc.hyps(1)[OF d _ Suc.prems(2) le r1 keys]) simp
    have e: "r - b - (n - 1 - int (Suc i)) * b = r - (n - 1 - int i) * b"
      by (simp add: algebra_simps)
    show ?thesis
      unfolding step ih up e by simp
  next
    case False
    with Suc.prems(1) have i: "int i = n - 1" by simp
    then have ni: "nat n - 1 = i" "\<not> int (Suc i) < n" by simp_all
    have "w_loop n (Fin (of_int b)) i cs (Fin (of_int r)) =
        w_loop n (Fin (of_int b)) (Suc i) (cs @ [(onehot (nat n) i, Fin (of_int r))]) (Fin (of_int r))"
      using False Suc.prems(1) fresh
      by (subst w_loop.simps) (simp add: rep Let_def onehot_def[symmetric] update_fresh)
    also have "\<dots> = Inr (cs @ [(onehot (nat n) i, Fin (of_int r))])"
      using ni by (subst w_loop.simps) simp
    finally show ?thesis using i ni by simp
  qed
qed

lemma w_counts_eq:
  assumes "1 \<le> n"
  shows "w_counts n =
    Inr (map (\<lambda>j. (onehot (nat n) j, Fin (of_int (1024 div n)))) [0..<nat n - 1] @
         [(onehot (nat n) (nat n - 1), Fin (of_int (1024 - (n - 1) * (1024 div n))))])"
proof -
  have b0: "0 \<le> 1024 div n" using assms by (simp add: pos_imp_zdiv_nonneg_iff)
  have "(1024 div n) * n + 1024 mod n = 1024" by simp
  moreover have "0 \<le> (1024::int) mod n" using assms by simp
  ultimately have "(1024 div n) * n \<le> 1024" by linarith
  then have "(n - 1) * (1024 div n) \<le> 1024" using b0 by (simp add: algebra_simps)
  then show ?thesis
    using assms b0 w_loop_closed[of 0 n "1024 div n" 1024 "[]"]
    by (simp add: w_counts_def floor_rnd_quotient total_shots_def)
qed

subsection \<open>State keys of the fallback branch\<close>

definition stateKey :: "int \<Rightarrow> nat \<Rightarrow> string" where
  "stateKey n j = padStart (toString2 (of_nat j)) n CHR ''0''"

definition bin_val :: "string \<Rightarrow> nat" where
  "bin_val s = foldl (\<lambda>a c. 2 * a + (if c = CHR ''1'' then 1 else 0)) 0 s"

definition nstates :: "int \<Rightarrow> nat" where
  "nstates n = min (2 ^ nat n) 16"

lemma toString2_nat: "toString2 (of_nat j) = int_digits j"
  by (simp add: toString2_def Let_def)

lemma length_int_digits: "0 < k \<Longrightarrow> j < 2 ^ k \<Longrightarrow> length (int_digits j) \<le> k"
proof (induction k arbitrary: j)
  case 0
  then show ?case by simp
next
  case (Suc k)
  show ?case
  proof (cases "j < 2")
    case True
    then show ?thesis by (subst int_digits.simps) simp
  next
    case False
    with Suc.prems have k: "0 < k" by (cases k) auto
    from Suc.prems have "j div 2 < 2 ^ k" by auto
    with Suc.IH[OF k] have "length (int_digits (j div 2)) \<le> k" by simp
    with False show ?thesis by (subst int_digits.simps) simp
  qed
qed

lemma bin_val_append: "bin_val (s @ [c]) = 2 * bin_val s + (if c = CHR ''1'' then 1 else 0)"
  by (simp add: bin_val_def)

lemma bin_val_int_digits: "bin_val (int_digits j) = j"
proof (induction j rule: int_digits.induct)
  case (1 n)
  show ?case
  proof (cases "n < 2")
    case True
    then have "n = 0 \<or> n = 1" by auto
    then show ?thesis
      by (subst int_digits.simps) (auto simp: bin_val_def bit_char_def)
  next
    case False
    with 1 have "bin_val (int_digits (n div 2)) = n div 2" by simp
    moreover have "bit_char (n mod 2) = CHR ''1'' \<longleftrightarrow> n mod 2 = 1"
      by (auto simp: bit_char_def)
    ultimately have "bin_val (int_digits n) = 2 * (n div 2) + (if n mod 2 = 1 then 1 else 0)"
      using False by (subst int_digits.simps) (simp add: bin_val_append)
    also have "(if n mod 2 = 1 then 1 else 0) = n mod 2" by presburger
    finally show ?thesis by simp
  qed
qed

lemma bin_val_zeros: "bin_val (replicate m CHR ''0'' @ s) = bin_val s"
proof -
  have "foldl (\<lambda>a c. 2 * a + (if c = CHR ''1'' then 1 else 0)) (0::nat) (replicate m CHR ''0'') = 0"
    by (induction m) simp_all
  then show ?thesis by (simp add: bin_val_def)
qed

lemma bin_val_stateKey: "bin_val (stateKey n j) = j"
  by (simp add: stateKey_def padStart_def toString2_nat bin_val_zeros bin_val_int_digits)

lemma length_stateKey:
  assumes "1 \<le> n" "j < 2 ^ nat n"
  shows "length (stateKey n j) = nat n"
proof -
  have "length (int_digits j) \<le> nat n"
    using assms by (intro length_int_digits) simp_all
  then show ?thesis
    using assms by (auto simp: stateKey_def padStart_def toString2_nat)
qed

lemma stateKey_fresh:
  assumes "fst ` set cs \<subseteq> stateKey n ` {..<i}"
  shows "stateKey n i \<notin> fst ` set cs"
proof
  assume "stateKey n i \<in> fst ` set cs"
  with assms obtain j where "j < i" "stateKey n i = stateKey n j" by auto
  then have "bin_val (stateKey n i) = bin_val (stateKey n j)" by simp
  with \<open>j < i\<close> show False by (simp add: bin_val_stateKey)
qed

lemma maxStates_eq:
  assumes "1 \<le> n"
  shows "maxStates n = Fin (of_nat (nstates n))"
proof -
  have "pow2 n = of_nat (2 ^ nat n)" using assms by (simp add: pow2_def power_int_def)
  then have "min (pow2 n) 16 = min (of_nat (2 ^ nat n)) (of_nat 16)" by simp
  also have "\<dots> = of_nat (nstates n)" unfolding nstates_def by (rule of_nat_min[symmetric])
  finally show ?thesis by (simp add: maxStates_def)
qed

lemma nstates_ge: "1 \<le> n \<Longrightarrow> 2 \<le> nstates n"
proof -
  assume "1 \<le> n"
  then obtain k where "nat n = Suc k" by (cases "nat n") auto
  then show ?thesis by (simp add: nstates_def)
qed

lemma nstates_le: "nstates n \<le> 16" "nstates n \<le> 2 ^ nat n"
  by (simp_all add: nstates_def)

lemma rnd_of_nat: "k < 2 ^ 53 \<Longrightarrow> rnd (of_nat k) = of_nat k"
proof -
  assume "k < 2 ^ 53"
  then have "int k < 2 ^ 53" by (metis of_nat_less_iff of_nat_numeral of_nat_power)
  then have "\<bar>int k\<bar> < 2 ^ 53" by simp
  from rnd_of_int[OF this] show ?thesis by simp
qed

lemma maxStates_sub1:
  assumes "1 \<le> n"
  shows "num_sub (maxStates n) (Fin 1) = Fin (of_nat (nstates n - 1))"
proof -
  obtain k where k: "nstates n = Suc k"
    using nstates_ge[OF assms] by (cases "nstates n") auto
  with nstates_le(1)[of n] have "k < 2 ^ 53" by simp
  then have "rnd (of_nat k) = of_nat k" by (rule rnd_of_nat)
  then show ?thesis
    by (simp add: maxStates_eq[OF assms] k)
qed

lemma loop_cond:
  assumes "1 \<le> n"
  shows "num_less (Fin (of_nat i)) (num_sub (maxStates n) (Fin 1)) \<longleftrightarrow> i < nstates n - 1"
  unfolding maxStates_sub1[OF assms] by simp

subsection \<open>Counts of the fallback branch\<close>

fun sum_counts :: "SimulationCounts \<Rightarrow> number" where
  "sum_counts [] = Fin 0"
| "sum_counts ((k, v) # cs) =
     (case (v, sum_counts cs) of (Fin x, Fin y) \<Rightarrow> Fin (x + y) | _ \<Rightarrow> NaN)"

fun is_count :: "number \<Rightarrow> bool" where
  "is_count (Fin x) = (0 \<le> x \<and> x = of_int \<lfloor>x\<rfloor>)"
| "is_count NaN = False"

fun nonneg :: "number \<Rightarrow> bool" where
  "nonneg (Fin x) = (0 \<le> x)"
| "nonneg NaN = False"

definition share :: "string \<Rightarrow> nat \<Rightarrow> number \<Rightarrow> number" where
  "share ct i R =
     Math_floor (num_mul R
       (num_add lit_0_1
          (num_mul (num_mul (num_mod (Fin (of_nat i)) (Fin 3)) lit_0_2)
             (num_div (num_mod (charCodeAt ct 0) (Fin 10)) (Fin 10)))))"

lemma nonneg_add: "nonneg a \<Longrightarrow> nonneg b \<Longrightarrow> nonneg (num_add a b)"
  by (cases a; cases b) (simp_all add: rnd_nonneg)

lemma nonneg_mul: "nonneg a \<Longrightarrow> nonneg b \<Longrightarrow> nonneg (num_mul a b)"
  by (cases a; cases b) (simp_all add: rnd_nonneg)

lemma nonneg_div: "nonneg a \<Longrightarrow> 0 < y \<Longrightarrow> nonneg (num_div a (Fin y))"
  by (cases a) (simp_all add: rnd_nonneg)

lemma nonneg_mod:
  assumes "nonneg a" "0 < y"
  shows "nonneg (num_mod a (Fin y))"
proof (cases a)
  case (Fin x)
  with assms have x: "0 \<le> x" by simp
  have "of_int \<lfloor>x / y\<rfloor> * y \<le> x"
    using of_int_floor_le[of "x / y"] assms(2) by (simp only: pos_le_divide_eq)
  then have "y * of_int \<lfloor>x / y\<rfloor> \<le> x" by (simp add: mult.commute)
  with x assms show ?thesis by (simp add: Fin trunc_def)
next
  case NaN
  with assms show ?thesis by simp
qed

lemma nonneg_lits: "nonneg lit_0_1" "nonneg lit_0_2" "nonneg lit_0_48"
  by (simp_all add: lit_0_1_def lit_0_2_def lit_0_48_def dbl_def rnd_nonneg)

lemma nonneg_charCodeAt: "ct \<noteq> [] \<Longrightarrow> nonneg (charCodeAt ct 0)"
  by (simp add: charCodeAt_def)

lemma floor_count: "nonneg a \<Longrightarrow> \<exists>c\<ge>0. Math_floor a = Fin (of_int c)"
  by (cases a) auto

lemma share_count:
  assumes "ct \<noteq> []" "0 \<le> r"
  shows "\<exists>c\<ge>0. share ct i (Fin (of_int r)) = Fin (of_int c)"
proof -
  have "nonneg (num_mod (Fin (of_nat i)) (Fin 3))" by (intro nonneg_mod) simp_all
  moreover have "nonneg (num_div (num_mod (charCodeAt ct 0) (Fin 10)) (Fin 10))"
    using assms(1) by (intro nonneg_div nonneg_mod nonneg_charCodeAt) simp_all
  moreover have "nonneg (Fin (of_int r))" using assms(2) by simp
  ultimately show ?thesis
    unfolding share_def by (intro floor_count nonneg_mul nonneg_add nonneg_lits)
qed

text \<open>
  The rounding of the double arithmetic is visible in the counts: for a type whose first
  code unit ends in 6 (\<open>j\<close> is 106), position 2 and 150 remaining shots, the exact value
  of \<open>150 * (0.1 + 2 * 0.2 * 0.6)\<close> is 51, and the source computes 50.
\<close>

lemma share_rounding_example: "share ''j'' 2 (Fin 150) = Fin 50"
  by code_simp

lemma other_loop_unfold:
  assumes "1 \<le> n"
  shows "other_loop ct n i cs R =
    (if i < nstates n - 1
     then other_loop ct n (Suc i)
            (AList.update (stateKey n i) (Math_min (share ct i R) R) cs)
            (num_sub R (Math_min (share ct i R) R))
     else (cs, R))"
  by (subst other_loop.simps)
     (simp add: loop_cond[OF assms] Let_def stateKey_def share_def)

lemma other_loop_keys:
  assumes "1 \<le> n" "fst ` set cs \<subseteq> stateKey n ` {..<i}" "distinct (map fst cs)"
  shows "fst ` set (fst (other_loop ct n i cs R)) \<subseteq> stateKey n ` {..<max i (nstates n - 1)}
       \<and> distinct (map fst (fst (other_loop ct n i cs R)))"
  using assms(2,3)
proof (induction "nstates n - 1 - i" arbitrary: i cs R)
  case 0
  then have "\<not> i < nstates n - 1" by simp
  with 0 show ?case by (simp add: other_loop_unfold[OF assms(1)] max_def)
next
  case (Suc d)
  then have lt: "i < nstates n - 1" by simp
  let ?cs = "AList.update (stateKey n i) (Math_min (share ct i R) R) cs"
  have k: "fst ` set ?cs \<subseteq> stateKey n ` {..<Suc i}"
    using Suc.prems(1) by (auto simp: update_keys lessThan_Suc simp flip: set_map)
  have d: "distinct (map fst ?cs)" using Suc.prems(2) by (simp add: distinct_update)
  have "d = nstates n - 1 - Suc i" using Suc.hyps(2) by simp
  from Suc.hyps(1)[OF this k d] lt show ?case
    by (simp add: other_loop_unfold[OF assms(1), of ct i] max_def)
qed

lemma sum_counts_append:
  "sum_counts (cs @ [(k, Fin x)]) = (case sum_counts cs of Fin s \<Rightarrow> Fin (s + x) | NaN \<Rightarrow> NaN)"
  by (induction cs) (auto split: number.splits)

lemma is_count_int: "0 \<le> c \<Longrightarrow> is_count (Fin (of_int c))"
  by simp

definition loop_inv :: "int \<Rightarrow> nat \<Rightarrow> SimulationCounts \<Rightarrow> int \<Rightarrow> bool" where
  "loop_inv n i cs r \<longleftrightarrow>
     0 \<le> r \<and> r \<le> 1024 \<and> sum_counts cs = Fin (of_int (1024 - r)) \<and>
     list_all (\<lambda>kv. is_count (snd kv)) cs \<and> fst ` set cs \<subseteq> stateKey n ` {..<i}"

lemma loop_inv_step:
  assumes "ct \<noteq> []" "loop_inv n i cs r"
  shows "\<exists>r'. num_sub (Fin (of_int r)) (Math_min (share ct i (Fin (of_int r))) (Fin (of_int r))) = Fin (of_int r')
      \<and> loop_inv n (Suc i)
           (AList.update (stateKey n i) (Math_min (share ct i (Fin (of_int r))) (Fin (of_int r))) cs) r'"
proof -
  from assms(2) have r: "0 \<le> r" "r \<le> 1024" by (simp_all add: loop_inv_def)
  from share_count[OF assms(1) r(1), of i] obtain c where
    c: "0 \<le> c" "share ct i (Fin (of_int r)) = Fin (of_int c)" by auto
  define v where "v = min c r"
  have v: "0 \<le> v" "v \<le> r" using c(1) r by (simp_all add: v_def)
  have mn: "Math_min (share ct i (Fin (of_int r))) (Fin (of_int r)) = Fin (of_int v)"
    by (simp add: c(2) v_def)
  have "\<bar>r - v\<bar> < 2 ^ 53" using v r by simp
  from rnd_of_int[OF this] have sub: "num_sub (Fin (of_int r)) (Fin (of_int v)) = Fin (of_int (r - v))"
    by simp
  have fresh: "stateKey n i \<notin> fst ` set cs"
    using assms(2) by (intro stateKey_fresh) (simp add: loop_inv_def)
  have "loop_inv n (Suc i) (cs @ [(stateKey n i, Fin (of_int v))]) (r - v)"
    using assms(2) v r
    by (auto simp: loop_inv_def sum_counts_append lessThan_Suc algebra_simps)
  then show ?thesis
    unfolding mn sub update_fresh[OF fresh] by blast
qed

lemma other_loop_inv:
  assumes "1 \<le> n" "ct \<noteq> []" "loop_inv n i cs r"
  shows "\<exists>r'. snd (other_loop ct n i cs (Fin (of_int r))) = Fin (of_int r')
      \<and> loop_inv n (max i (nstates n - 1)) (fst (other_loop ct n i cs (Fin (of_int r)))) r'"
  using assms(3)
proof (induction "nstates n - 1 - i" arbitrary: i cs r)
  case 0
  then have "\<not> i < nstates n - 1" by simp
  with 0 show ?case by (auto simp: other_loop_unfold[OF assms(1)] max_def)
next
  case (Suc d)
  then have lt: "i < nstates n - 1" by simp
  from loop_inv_step[OF assms(2) Suc.prems] obtain r' where
    r': "num_sub (Fin (of_int r)) (Math_min (share ct i (Fin (of_int r))) (Fin (of_int r))) = Fin (of_int r')"
        "loop_inv n (Suc i)
           (AList.update (stateKey n i) (Math_min (share ct i (Fin (of_int r))) (Fin (of_int r))) cs) r'"
    by blast
  have "d = nstates n - 1 - Suc i" using Suc.hyps(2) by simp
  from Suc.hyps(1)[OF this r'(2)] lt show ?case
    by (subst (1 2) other_loop_unfold[OF assms(1), of ct i]) (simp add: r'(1) max_def)
qed

definition conserves :: "exn + SimulationCounts \<Rightarrow> bool" where
  "conserves res =
     (case res of
        Inl e \<Rightarrow> False
      | Inr cs \<Rightarrow> sum_counts cs = total_shots \<and> list_all (\<lambda>kv. is_count (snd kv)) cs)"

lemma other_counts_conserves:
  assumes "1 \<le> n" "ct \<noteq> []"
  shows "conserves (Inr (other_counts ct n))"
proof -
  have "loop_inv n 0 [] 1024" by (simp add: loop_inv_def)
  from other_loop_inv[OF assms this] obtain r' where
    r': "snd (other_loop ct n 0 [] (Fin 1024)) = Fin (of_int r')"
        "loop_inv n (nstates n - 1) (fst (other_loop ct n 0 [] (Fin 1024))) r'"
    by auto
  define cs where "cs = fst (other_loop ct n 0 [] (Fin 1024))"
  have ol: "other_loop ct n 0 [] total_shots = (cs, Fin (of_int r'))"
    using r'(1) by (simp add: cs_def total_shots_def prod_eq_iff)
  have inv: "loop_inv n (nstates n - 1) cs r'" using r'(2) by (simp add: cs_def)
  have fresh: "stateKey n (nstates n - 1) \<notin> fst ` set cs"
    using inv by (intro stateKey_fresh) (simp add: loop_inv_def)
  show ?thesis
  proof (cases "0 < r'")
    case True
    then have "other_counts ct n = cs @ [(stateKey n (nstates n - 1), Fin (of_int r'))]"
      using fresh
      by (simp add: other_counts_def ol maxStates_sub1[OF assms(1)] stateKey_def[symmetric]
            update_fresh)
    with inv True show ?thesis
      by (simp add: conserves_def loop_inv_def sum_counts_append total_shots_def)
  next
    case False
    then have "other_counts ct n = cs" by (simp add: other_counts_def ol)
    moreover from False inv have "r' = 0" by (simp add: loop_inv_def)
    ultimately show ?thesis
      using inv by (simp add: conserves_def loop_inv_def total_shots_def)
  qed
qed

subsection \<open>Conservation in each branch\<close>

lemma bell_conserves: "conserves (Inr bell_counts)"
  by (simp add: conserves_def bell_counts_eq total_shots_def)

lemma ghz_conserves: "1 \<le> n \<Longrightarrow> conserves (ghz_counts n)"
  by (simp add: conserves_def ghz_counts_eq total_shots_def)

lemma sum_counts_base:
  "sum_counts (map (\<lambda>j. (f j, Fin (of_int b))) js) = Fin (of_int (int (length js) * b))"
  by (induction js) (simp_all add: algebra_simps)

lemma sum_counts_app:
  "sum_counts (cs @ ds) =
     (case (sum_counts cs, sum_counts ds) of (Fin x, Fin y) \<Rightarrow> Fin (x + y) | _ \<Rightarrow> NaN)"
  by (induction cs) (auto split: number.splits)

lemma w_conserves:
  assumes "1 \<le> n"
  shows "conserves (w_counts n)"
proof -
  have b0: "0 \<le> 1024 div n" using assms by (simp add: pos_imp_zdiv_nonneg_iff)
  have "(1024 div n) * n + 1024 mod n = 1024" by simp
  moreover have "0 \<le> (1024::int) mod n" using assms by simp
  ultimately have "(1024 div n) * n \<le> 1024" by linarith
  then have last: "0 \<le> 1024 - (n - 1) * (1024 div n)" using b0 by (simp add: algebra_simps)
  define b where "b = 1024 div n"
  define l where "l = 1024 - (n - 1) * b"
  have len: "int (length [0..<nat n - 1]) = n - 1" using assms by simp
  have "rat_of_int ((n - 1) * b) + rat_of_int l = rat_of_int ((n - 1) * b + l)"
    by (simp only: of_int_add)
  also have "(n - 1) * b + l = 1024" by (simp add: l_def)
  finally have tot: "rat_of_int ((n - 1) * b) + rat_of_int l = 1024" by simp
  have "sum_counts (map (\<lambda>j. (onehot (nat n) j, Fin (of_int b))) [0..<nat n - 1] @
          [(onehot (nat n) (nat n - 1), Fin (of_int l))]) = Fin 1024"
    unfolding sum_counts_app sum_counts_base len using tot by simp
  moreover have bl: "0 \<le> b" "0 \<le> l" using b0 last by (simp_all add: b_def l_def)
  have "is_count (Fin (of_int b))" "is_count (Fin (of_int l))"
    by (rule is_count_int[OF bl(1)], rule is_count_int[OF bl(2)])
  ultimately show ?thesis
    unfolding w_counts_eq[OF assms] b_def[symmetric] l_def[symmetric]
    by (simp add: conserves_def total_shots_def list_all_iff)
qed

lemma onehot_shape:
  "i < n \<Longrightarrow> length (onehot n i) = n \<and> onehot n i ! i = CHR ''1'' \<and>
     (\<forall>j<n. j \<noteq> i \<longrightarrow> onehot n i ! j = CHR ''0'')"
  by (simp add: onehot_def)

definition w_example_as_listed :: "exn + SimulationCounts \<Rightarrow> bool" where
  "w_example_as_listed res =
     (case res of
        Inl e \<Rightarrow> False
      | Inr cs \<Rightarrow>
          lookup cs ''001'' = Fin 341 \<and> lookup cs ''010'' = Fin 341 \<and> lookup cs ''100'' = Fin 342)"

subsection \<open>Qubit count resolution and sample artifacts\<close>






subsection \<open>Shape of the outcomes in each branch\<close>

definition is_bitstring :: "string \<Rightarrow> bool" where
  "is_bitstring k = list_all (\<lambda>c. c = CHR ''0'' \<or> c = CHR ''1'') k"

definition outcome_shape :: "int \<Rightarrow> exn + SimulationCounts \<Rightarrow> bool" where
  "outcome_shape n res =
     (case res of
        Inl e \<Rightarrow> False
      | Inr cs \<Rightarrow>
          list_all (\<lambda>kv. is_bitstring (fst kv) \<and> int (length (fst kv)) = n) cs \<and>
          length (remdups (map fst cs)) \<le> min (2 ^ nat n) 16)"

definition outcome_shape_by_branch :: "string \<Rightarrow> int \<Rightarrow> exn + SimulationCounts \<Rightarrow> bool" where
  "outcome_shape_by_branch ct n res =
     (case res of
        Inl e \<Rightarrow> False
      | Inr cs \<Rightarrow>
          distinct (map fst cs) \<and>
          (if ct = ''bell_state'' then map fst cs = [''00'', ''11'']
           else list_all (\<lambda>kv. is_bitstring (fst kv) \<and> int (length (fst kv)) = n) cs) \<and>
          (if ct = ''w_state'' then int (length cs) = n
           else length cs \<le> min (2 ^ nat n) 16))"

lemma is_bitstring_replicate:
  "c = CHR ''0'' \<or> c = CHR ''1'' \<Longrightarrow> is_bitstring (replicate m c)"
  by (simp add: is_bitstring_def list_all_iff)

lemma is_bitstring_append: "is_bitstring (xs @ ys) \<longleftrightarrow> is_bitstring xs \<and> is_bitstring ys"
  by (simp add: is_bitstring_def)

lemma is_bitstring_onehot: "is_bitstring (onehot m i)"
proof -
  have "set (onehot m i) \<subseteq> insert CHR ''1'' (set (replicate m CHR ''0''))"
    unfolding onehot_def by (rule set_update_subset_insert)
  then show ?thesis by (auto simp: is_bitstring_def list_all_iff)
qed

lemma is_bitstring_int_digits: "is_bitstring (int_digits j)"
proof (induction j rule: int_digits.induct)
  case (1 n)
  have b: "is_bitstring [bit_char m]" for m
    by (simp add: is_bitstring_def bit_char_def)
  show ?case
  proof (cases "n < 2")
    case True
    then show ?thesis by (subst int_digits.simps) (simp add: b)
  next
    case False
    with 1 have "is_bitstring (int_digits (n div 2))" by simp
    with False show ?thesis
      by (subst int_digits.simps) (simp add: is_bitstring_append b)
  qed
qed

lemma is_bitstring_stateKey: "is_bitstring (stateKey n j)"
  by (simp add: stateKey_def padStart_def toString2_nat is_bitstring_append
        is_bitstring_int_digits is_bitstring_replicate)

lemma two_le_nstates: "1 \<le> n \<Longrightarrow> 2 \<le> min ((2::nat) ^ nat n) 16"
  using nstates_ge[of n] by (simp add: nstates_def)

lemma bell_shape: "1 \<le> n \<Longrightarrow> outcome_shape_by_branch ''bell_state'' n (Inr bell_counts)"
  using two_le_nstates[of n] by (simp add: outcome_shape_by_branch_def bell_counts_eq)

lemma ghz_shape:
  assumes "1 \<le> n"
  shows "outcome_shape_by_branch ''ghz_state'' n (ghz_counts n)"
proof -
  have "replicate (nat n) CHR ''0'' \<noteq> replicate (nat n) CHR ''1''"
    using assms by (cases "nat n") auto
  then show ?thesis
    using assms two_le_nstates[of n]
    by (simp add: outcome_shape_by_branch_def ghz_counts_eq is_bitstring_replicate)
qed

lemma w_shape:
  assumes "1 \<le> n"
  shows "outcome_shape_by_branch ''w_state'' n (w_counts n)"
proof -
  have inj: "inj_on (onehot (nat n)) {..<nat n}"
    by (auto simp: inj_on_def dest: onehot_inj)
  have "map fst (map (\<lambda>j. (onehot (nat n) j, Fin (of_int (1024 div n)))) [0..<nat n - 1] @
          [(onehot (nat n) (nat n - 1), Fin (of_int (1024 - (n - 1) * (1024 div n))))])
        = map (onehot (nat n)) ([0..<nat n - 1] @ [nat n - 1])"
    by (simp add: comp_def)
  also have "[0..<nat n - 1] @ [nat n - 1] = [0..<nat n]"
  proof -
    obtain k where "nat n = Suc k" using assms by (cases "nat n") auto
    then show ?thesis by simp
  qed
  finally have keys: "map fst (map (\<lambda>j. (onehot (nat n) j, Fin (of_int (1024 div n)))) [0..<nat n - 1] @
          [(onehot (nat n) (nat n - 1), Fin (of_int (1024 - (n - 1) * (1024 div n))))])
        = map (onehot (nat n)) [0..<nat n]" .
  have d: "distinct (map (onehot (nat n)) [0..<nat n])"
    using inj by (simp add: distinct_map atLeast_upt[symmetric] lessThan_atLeast0)
  have l: "\<forall>j<nat n. length (onehot (nat n) j) = nat n" by (simp add: onehot_def)
  have len: "list_all (\<lambda>kv. is_bitstring (fst kv) \<and> int (length (fst kv)) = n)
      (map (\<lambda>j. (onehot (nat n) j, Fin (of_int (1024 div n)))) [0..<nat n - 1] @
          [(onehot (nat n) (nat n - 1), Fin (of_int (1024 - (n - 1) * (1024 div n))))])"
    using assms by (simp add: list_all_iff is_bitstring_onehot) (simp add: onehot_def)
  show ?thesis
    unfolding outcome_shape_by_branch_def w_counts_eq[OF assms]
    using assms d len unfolding keys[symmetric] by simp
qed

lemma other_counts_keys:
  assumes "1 \<le> n"
  shows "fst ` set (other_counts ct n) \<subseteq> stateKey n ` {..<nstates n}
       \<and> distinct (map fst (other_counts ct n))"
proof -
  obtain cs R where ol: "other_loop ct n 0 [] total_shots = (cs, R)"
    by (cases "other_loop ct n 0 [] total_shots")
  from other_loop_keys[OF assms, of "[]" 0 ct total_shots]
  have k: "fst ` set cs \<subseteq> stateKey n ` {..<nstates n - 1}" and d: "distinct (map fst cs)"
    by (simp_all add: ol)
  have sub: "stateKey n ` {..<nstates n - 1} \<subseteq> stateKey n ` {..<nstates n}"
    by (intro image_mono) auto
  have last: "stateKey n (nstates n - 1) \<in> stateKey n ` {..<nstates n}"
    using nstates_ge[OF assms] by (intro imageI) simp
  show ?thesis
  proof (cases "num_less (Fin 0) R")
    case True
    then have eq: "other_counts ct n = AList.update (stateKey n (nstates n - 1)) R cs"
      by (simp add: other_counts_def ol maxStates_sub1[OF assms] stateKey_def)
    have k1: "fst ` set (AList.update (stateKey n (nstates n - 1)) R cs)
        \<subseteq> insert (stateKey n (nstates n - 1)) (fst ` set cs)"
      by (auto simp: update_keys simp flip: set_map)
    have k2: "insert (stateKey n (nstates n - 1)) (fst ` set cs) \<subseteq> stateKey n ` {..<nstates n}"
      using k sub last by blast
    have "fst ` set (other_counts ct n) \<subseteq> stateKey n ` {..<nstates n}"
      unfolding eq using k1 k2 by (rule subset_trans)
    moreover have "distinct (map fst (other_counts ct n))"
      unfolding eq using d by (rule distinct_update)
    ultimately show ?thesis by (rule conjI)
  next
    case False
    then have eq: "other_counts ct n = cs" by (simp add: other_counts_def ol)
    have "fst ` set cs \<subseteq> stateKey n ` {..<nstates n}"
      using k sub by (rule subset_trans)
    with d show ?thesis unfolding eq by (rule conjI[rotated])
  qed
qed

lemma other_shape:
  assumes "1 \<le> n" "ct \<noteq> ''bell_state''" "ct \<noteq> ''w_state''"
  shows "outcome_shape_by_branch ct n (Inr (other_counts ct n))"
proof -
  from other_counts_keys[OF assms(1), of ct]
  have k: "fst ` set (other_counts ct n) \<subseteq> stateKey n ` {..<nstates n}"
    and d: "distinct (map fst (other_counts ct n))" by simp_all
  have len: "is_bitstring (fst kv) \<and> int (length (fst kv)) = n"
    if "kv \<in> set (other_counts ct n)" for kv
  proof -
    from that k obtain j where j: "j < nstates n" "fst kv = stateKey n j" by auto
    with nstates_le(2)[of n] have "j < 2 ^ nat n" by simp
    from length_stateKey[OF assms(1) this] j assms(1) show ?thesis
      by (simp add: is_bitstring_stateKey)
  qed
  have "length (other_counts ct n) = card (fst ` set (other_counts ct n))"
    using distinct_card[OF d] by simp
  also have "\<dots> \<le> card (stateKey n ` {..<nstates n})"
    using k by (intro card_mono) simp_all
  also have "\<dots> \<le> nstates n"
    using card_image_le[of "{..<nstates n}" "stateKey n"] by simp
  finally have "length (other_counts ct n) \<le> min (2 ^ nat n) 16"
    by (simp add: nstates_def)
  with d len assms(2,3) show ?thesis
    by (simp add: outcome_shape_by_branch_def list_all_iff)
qed

lemma bell_three_not_shaped: "\<not> outcome_shape 3 (simulate_counts ''bell_state'' 3)"
  by (simp add: outcome_shape_def simulate_counts_def bell_counts_eq)

lemma w_seventeen_not_shaped: "\<not> outcome_shape 17 (simulate_counts ''w_state'' 17)"
proof -
  have "outcome_shape_by_branch ''w_state'' 17 (w_counts 17)" by (rule w_shape) simp
  then obtain cs where cs: "w_counts 17 = Inr cs" "distinct (map fst cs)" "int (length cs) = 17"
    by (auto simp: outcome_shape_by_branch_def split: sum.splits)
  then have "length (remdups (map fst cs)) = 17" by (simp add: distinct_remdups_id)
  then show ?thesis by (simp add: outcome_shape_def simulate_counts_def cs(1))
qed

section \<open>The generation lifecycle orchestrator (Layout.tsx)\<close>

text \<open>
  The handlers of the text channel; those of the template, image and file channels are
  the same with their own flag:
  \<^verbatim>\<open>
  const handleStartNaturalLanguageGeneration = () => {
    setIsNaturalLanguageGenerating(true);
    setShowResults(false);
    setSimulationResults(null);
  };
  const handleNaturalLanguageGenerated = (data: CircuitResponse) => {
    pendingDataRef.current = data;
    setTimeout(() => {
      setSimulationResults(null);
      setCircuitData(pendingDataRef.current);
      setError(null);
      setIsNaturalLanguageGenerating(false);
      setShowResults(true);
    }, 500);
  };
  const handleNaturalLanguageGenerationFailed = (errorMessage: string) => {
    setIsNaturalLanguageGenerating(false);
    setError(errorMessage);
  };
  const handleResetCircuit = () => {
    setCircuitData(null);
    pendingDataRef.current = null;
    setSimulationResults(null);
    setError(null);
    setShowResults(false);
    setResetCounter(prev => prev + 1);
    setIsNaturalLanguageGenerating(false);
    setIsTemplateGenerating(false);
    setIsImageGenerating(false);
    setIsFileGenerating(false);
    ...
  };
  const isGenerating = isNaturalLanguageGenerating || isTemplateGenerating ||
                       isImageGenerating || isFileGenerating;
  ...
  {circuitData && showResults && !isGenerating && ( <> the four Result Views </> )}
  \<close>

  The state of the component is the record \<open>Layout\<close>: its React state variables, the ref
  \<open>pendingDataRef\<close>, the prop \<open>circuitData\<close> (state of the parent \<open>App\<close>, written only
  through \<open>setCircuitData\<close>) and \<open>timers\<close>, the queue of pending \<open>setTimeout\<close> callbacks.
  All callbacks have the same delay of 500 ms, so they fire in the order in which they
  were scheduled; each is recorded by the channel of the handler that scheduled it, and
  reads \<open>pendingDataRef.current\<close> when it fires (\<open>settle\<close>).

  The four groups of handlers differ only in the flag they write and are modelled once,
  with the channel as a parameter. The state updates of one handler are batched and take
  effect together.
\<close>

datatype channel = Ch_text | Ch_template | Ch_image | Ch_file

record Layout =
  circuitData :: "CircuitResponse option"
  simulationResults :: "SimulationResult option"
  activeTab :: channel
  error :: "string option"
  resetCounter :: nat
  isNaturalLanguageGenerating :: bool
  isTemplateGenerating :: bool
  isImageGenerating :: bool
  isFileGenerating :: bool
  showResults :: bool
  pendingDataRef :: "CircuitResponse option"
  timers :: "channel list"

definition Layout_init :: Layout where
  "Layout_init =
     \<lparr>circuitData = None, simulationResults = None, activeTab = Ch_text, error = None,
      resetCounter = 0, isNaturalLanguageGenerating = False, isTemplateGenerating = False,
      isImageGenerating = False, isFileGenerating = False, showResults = False,
      pendingDataRef = None, timers = []\<rparr>"

fun setGenerating :: "channel \<Rightarrow> bool \<Rightarrow> Layout \<Rightarrow> Layout" where
  "setGenerating Ch_text b s = s\<lparr>isNaturalLanguageGenerating := b\<rparr>"
| "setGenerating Ch_template b s = s\<lparr>isTemplateGenerating := b\<rparr>"
| "setGenerating Ch_image b s = s\<lparr>isImageGenerating := b\<rparr>"
| "setGenerating Ch_file b s = s\<lparr>isFileGenerating := b\<rparr>"

fun generating :: "channel \<Rightarrow> Layout \<Rightarrow> bool" where
  "generating Ch_text s = isNaturalLanguageGenerating s"
| "generating Ch_template s = isTemplateGenerating s"
| "generating Ch_image s = isImageGenerating s"
| "generating Ch_file s = isFileGenerating s"

definition handleStartGeneration :: "channel \<Rightarrow> Layout \<Rightarrow> Layout" where
  "handleStartGeneration c s =
     (setGenerating c True s)\<lparr>showResults := False, simulationResults := None\<rparr>"

definition handleGenerated :: "channel \<Rightarrow> CircuitResponse \<Rightarrow> Layout \<Rightarrow> Layout" where
  "handleGenerated c data s = s\<lparr>pendingDataRef := Some data, timers := timers s @ [c]\<rparr>"

definition settle :: "channel \<Rightarrow> Layout \<Rightarrow> Layout" where
  "settle c s =
     (setGenerating c False s)
       \<lparr>simulationResults := None, circuitData := pendingDataRef s, error := None,
        showResults := True\<rparr>"

definition handleGenerationFailed :: "channel \<Rightarrow> string \<Rightarrow> Layout \<Rightarrow> Layout" where
  "handleGenerationFailed c errorMessage s = (setGenerating c False s)\<lparr>error := Some errorMessage\<rparr>"

definition handleResetCircuit :: "Layout \<Rightarrow> Layout" where
  "handleResetCircuit s =
     s\<lparr>circuitData := None, pendingDataRef := None, simulationResults := None, error := None,
       showResults := False, resetCounter := resetCounter s + 1,
       isNaturalLanguageGenerating := False, isTemplateGenerating := False,
       isImageGenerating := False, isFileGenerating := False\<rparr>"

definition activeTab_effect :: "Layout \<Rightarrow> Layout" where
  "activeTab_effect s =
     s\<lparr>simulationResults := None, isNaturalLanguageGenerating := False,
       isTemplateGenerating := False, isImageGenerating := False, isFileGenerating := False,
       error := None\<rparr>"

definition tabClick :: "channel \<Rightarrow> Layout \<Rightarrow> Layout" where
  "tabClick t s =
     (let s' = handleResetCircuit (s\<lparr>activeTab := t\<rparr>)
      in if t = activeTab s then s' else activeTab_effect s')"

definition isGenerating :: "Layout \<Rightarrow> bool" where
  "isGenerating s \<longleftrightarrow>
     isNaturalLanguageGenerating s \<or> isTemplateGenerating s \<or> isImageGenerating s \<or>
     isFileGenerating s"

definition rendersResultViews :: "Layout \<Rightarrow> bool" where
  "rendersResultViews s \<longleftrightarrow> circuitData s \<noteq> None \<and> showResults s \<and> \<not> isGenerating s"

definition runSimulation :: "Layout \<Rightarrow> Layout" where
  "runSimulation s =
     (if rendersResultViews s \<and> simulationResults s = None
      then (case handleRunSimulation (circuitData s) of
              Some (Inr r) \<Rightarrow> s\<lparr>simulationResults := Some r\<rparr>
            | _ \<Rightarrow> s)
      else s)"

text \<open>
  One event of the component. A timer can fire only while one is pending. The tab
  buttons are disabled while any channel is generating, so a tab click is possible only
  otherwise; it sets the tab and calls \<open>handleResetCircuit\<close>, and the effect on
  \<open>activeTab\<close> runs when the tab changed. The handlers passed to the adapters carry no
  guard of their own. \<open>RunSimulation\<close> is the effect of the mounted measurement panel: it
  stores a table when the views are rendered and none is stored yet.
\<close>

datatype event =
    StartGeneration channel
  | Generated channel CircuitResponse
  | TimerFired
  | GenerationFailed channel string
  | ResetCircuit
  | TabClick channel
  | RunSimulation

fun step :: "event \<Rightarrow> Layout \<Rightarrow> Layout option" where
  "step (StartGeneration c) s = Some (handleStartGeneration c s)"
| "step (Generated c data) s = Some (handleGenerated c data s)"
| "step TimerFired s =
     (case timers s of [] \<Rightarrow> None | c # cs \<Rightarrow> Some (settle c (s\<lparr>timers := cs\<rparr>)))"
| "step (GenerationFailed c errorMessage) s = Some (handleGenerationFailed c errorMessage s)"
| "step ResetCircuit s = Some (handleResetCircuit s)"
| "step (TabClick t) s = (if isGenerating s then None else Some (tabClick t s))"
| "step RunSimulation s = Some (runSimulation s)"

fun exec :: "event list \<Rightarrow> Layout \<Rightarrow> Layout option" where
  "exec [] s = Some s"
| "exec (e # es) s = (case step e s of None \<Rightarrow> None | Some s' \<Rightarrow> exec es s')"

definition artA :: CircuitResponse where
  "artA = \<lparr>circuit_type = ''bell_state'', num_qubits = Some 2, parameters_num_qubits = None,
           explanation = ''A'', visualization = ''A'', exports = ''A'', error_field = None\<rparr>"


subsection \<open>What a trace does to the orchestrator\<close>

fun shows_after :: "bool \<Rightarrow> event \<Rightarrow> bool" where
  "shows_after b TimerFired = True"
| "shows_after b (StartGeneration c) = False"
| "shows_after b ResetCircuit = False"
| "shows_after b (TabClick t) = False"
| "shows_after b e = b"

definition last_commit_stands :: "event list \<Rightarrow> bool" where
  "last_commit_stands es = foldl shows_after False es"





lemma setGenerating_fields [simp]:
  "circuitData (setGenerating c b s) = circuitData s"
  "pendingDataRef (setGenerating c b s) = pendingDataRef s"
  "showResults (setGenerating c b s) = showResults s"
  "simulationResults (setGenerating c b s) = simulationResults s"
  "timers (setGenerating c b s) = timers s"
  "error (setGenerating c b s) = error s"
  "activeTab (setGenerating c b s) = activeTab s"
  by (cases c; simp)+

lemma generating_setGenerating [simp]: "generating c (setGenerating c b s) = b"
  by (cases c) simp_all

lemma step_showResults:
  "step e s = Some s' \<Longrightarrow> showResults s' = shows_after (showResults s) e"
  by (cases e)
     (auto simp: handleStartGeneration_def handleGenerated_def settle_def
        handleGenerationFailed_def handleResetCircuit_def tabClick_def activeTab_effect_def
        runSimulation_def Let_def split: list.splits if_splits option.splits sum.splits)

lemma exec_showResults:
  "exec es s = Some s' \<Longrightarrow> showResults s' = foldl shows_after (showResults s) es"
proof (induction es arbitrary: s)
  case Nil
  then show ?case by simp
next
  case (Cons e es)
  then obtain s1 where s1: "step e s = Some s1" "exec es s1 = Some s'"
    by (auto split: option.splits)
  from Cons.IH[OF s1(2)] step_showResults[OF s1(1)] show ?case by simp
qed











subsection \<open>The controls that call the handlers\<close>

text \<open>
  \<open>step\<close> lets every handler run in every state. In the application a handler is called
  only by a control of \<open>Layout\<close> or of the adapter it has mounted:
  \<^verbatim>\<open>
  // Layout.tsx
  <button ... onClick={() => { setActiveTab('text'); handleResetCircuit(); }}
          disabled={isGenerating}>
  {activeTab === 'text' && (
    <NaturalLanguageInput onCircuitGenerated={handleNaturalLanguageGenerated} ...
       isGenerating={isNaturalLanguageGenerating} key={`text-input-${resetCounter}`} />)}
  // NaturalLanguageInput.tsx (the other three adapters alike)
  const handleSubmit = async () => {
    ...
    onStartGeneration();
    try {
      const circuitData = await ApiService.generateCircuitFromText(input);
      onCircuitGenerated(circuitData);
    } catch (error) {
      ...
      onGenerationFailed(errorMessage);
    }
  };
  {isGenerating ? ( <div className="nl-input-loading"> ... </div> ) : (
    <> <button ... onClick={handleReset}>Reset</button>
       <button ... onClick={handleSubmit}>Generate Circuit</button> </> )}
  \<close>

  Only the adapter of the active tab is mounted, and it renders its Reset and Generate
  buttons only while the flag of its own channel is clear. So a generation on channel \<open>c\<close>
  can start when \<open>c\<close> is the active tab and \<open>c\<close> is not generating, and a reset can be
  requested when the active channel is not generating (the further conditions of the
  Generate button, such as a non-empty input, are local to the adapter and left open). The
  adapter calls \<open>onCircuitGenerated\<close> or \<open>onGenerationFailed\<close> once for each request it
  sent, when the request is answered. A \<open>Session\<close> is the component together with
  \<open>inflight\<close>, the channels of the requests that were sent and are not answered yet;
  \<open>enabled\<close> says which events the controls allow, \<open>act\<close> is \<open>step\<close> under these guards and
  \<open>run\<close> executes a trace of them.

  \<open>open_attempt\<close> reads off a trace the channel of the attempt that was started last and has
  not been answered; a session is \<open>unsettled\<close> while a request is in flight or a settle
  timer is pending.
\<close>

record Session =
  layout :: Layout
  inflight :: "channel list"


fun enabled :: "event \<Rightarrow> Session \<Rightarrow> bool" where
  "enabled (StartGeneration c) s \<longleftrightarrow> activeTab (layout s) = c \<and> \<not> generating c (layout s)"
| "enabled (Generated c data) s \<longleftrightarrow> c \<in> set (inflight s)"
| "enabled (GenerationFailed c errorMessage) s \<longleftrightarrow> c \<in> set (inflight s)"
| "enabled ResetCircuit s \<longleftrightarrow> \<not> generating (activeTab (layout s)) (layout s)"
| "enabled (TabClick t) s \<longleftrightarrow> \<not> isGenerating (layout s)"
| "enabled TimerFired s \<longleftrightarrow> timers (layout s) \<noteq> []"
| "enabled RunSimulation s \<longleftrightarrow> True"

fun track :: "event \<Rightarrow> channel list \<Rightarrow> channel list" where
  "track (StartGeneration c) cs = cs @ [c]"
| "track (Generated c data) cs = remove1 c cs"
| "track (GenerationFailed c errorMessage) cs = remove1 c cs"
| "track e cs = cs"

definition act :: "event \<Rightarrow> Session \<Rightarrow> Session option" where
  "act e s =
     (if enabled e s
      then map_option (\<lambda>l. \<lparr>layout = l, inflight = track e (inflight s)\<rparr>) (step e (layout s))
      else None)"

fun run :: "event list \<Rightarrow> Session \<Rightarrow> Session option" where
  "run [] s = Some s"
| "run (e # es) s = (case act e s of None \<Rightarrow> None | Some s' \<Rightarrow> run es s')"














lemma runSimulation_fields [simp]:
  "timers (runSimulation l) = timers l"
  "activeTab (runSimulation l) = activeTab l"
  "generating c (runSimulation l) = generating c l"
  by (cases c; simp add: runSimulation_def split: option.splits sum.splits)+

lemma generating_updates [simp]:
  "generating c (l\<lparr>timers := ts\<rparr>) = generating c l"
  "generating c (l\<lparr>pendingDataRef := p\<rparr>) = generating c l"
  "generating c (l\<lparr>showResults := b\<rparr>) = generating c l"
  "generating c (l\<lparr>simulationResults := r\<rparr>) = generating c l"
  "generating c (l\<lparr>circuitData := d\<rparr>) = generating c l"
  "generating c (l\<lparr>error := m\<rparr>) = generating c l"
  "generating c (l\<lparr>activeTab := t\<rparr>) = generating c l"
  "generating c (l\<lparr>resetCounter := k\<rparr>) = generating c l"
  by (cases c; simp)+











subsection \<open>Sample executions\<close>

definition committed :: "Layout \<Rightarrow> bool" where
  "committed s \<longleftrightarrow> circuitData s \<noteq> None"

definition gating_as_stated :: "Layout \<Rightarrow> bool" where
  "gating_as_stated s \<longleftrightarrow> (rendersResultViews s \<longleftrightarrow> committed s \<and> \<not> isGenerating s)"

definition trace_commit :: "event list" where
  "trace_commit = [StartGeneration Ch_text, Generated Ch_text artA, TimerFired]"

definition trace_failed_retry :: "event list" where
  "trace_failed_retry =
     [StartGeneration Ch_text, Generated Ch_text artA, TimerFired, RunSimulation,
      StartGeneration Ch_text,
      GenerationFailed Ch_text ''Failed to generate circuit. Please try again.'']"

definition trace_measured :: "event list" where
  "trace_measured =
     [StartGeneration Ch_text, Generated Ch_text artA, TimerFired, RunSimulation]"





definition has_artifact_and_table :: "Layout \<Rightarrow> bool" where
  "has_artifact_and_table s \<longleftrightarrow> circuitData s \<noteq> None \<and> simulationResults s \<noteq> None"

definition start_clears_artifact :: "channel \<Rightarrow> Layout \<Rightarrow> bool" where
  "start_clears_artifact c s \<longleftrightarrow> circuitData (handleStartGeneration c s) = None"

definition state_committed :: Layout where
  "state_committed =
     Layout_init\<lparr>circuitData := Some artA, pendingDataRef := Some artA, showResults := True\<rparr>"

lemma exec_trace_commit: "exec trace_commit Layout_init = Some state_committed"
  by (simp add: trace_commit_def Layout_init_def handleStartGeneration_def handleGenerated_def
        settle_def state_committed_def)




section \<open>The diagram scaling helper (CircuitVisualization.tsx)\<close>

text \<open>
  \<^verbatim>\<open>
  useEffect(() => {
    if (imageDimensions.width > 0 && containerDimensions.width > 0) {
      const widthRatio = containerDimensions.width / imageDimensions.width;
      const newZoom = widthRatio < 1 ? widthRatio : 1;
      setOptimalZoom(newZoom);
      setZoomLevel(newZoom);
    }
  }, [imageDimensions, containerDimensions]);
  const handleFitToContainer = () => { setZoomLevel(optimalZoom); };
  onClick={() => setZoomLevel(prev => Math.max(0.1, prev - 0.1))}
  onClick={() => setZoomLevel(prev => prev + 0.1)}
  \<close>
  The component keeps the zoom factor, the last computed fit (\<open>optimalZoom\<close>) and the
  dimensions of the image and of its container. Every update of either dimension stores
  a new object, so the effect (\<open>zoom_effect\<close>) runs after each of them. \<open>zoom_policy\<close> is
  the policy of the specification, \<open>min(1, containerWidth / intrinsicWidth)\<close>, with the
  division of JavaScript numbers.
\<close>

record Dimensions =
  width :: number
  height :: number

record Visualization =
  zoomLevel :: number
  isFullScreen :: bool
  imageDimensions :: Dimensions
  containerDimensions :: Dimensions
  optimalZoom :: number

definition Visualization_init :: Visualization where
  "Visualization_init =
     \<lparr>zoomLevel = Fin 1, isFullScreen = False,
      imageDimensions = \<lparr>width = Fin 0, height = Fin 0\<rparr>,
      containerDimensions = \<lparr>width = Fin 0, height = Fin 0\<rparr>,
      optimalZoom = Fin 1\<rparr>"

definition zoom_effect :: "Visualization \<Rightarrow> Visualization" where
  "zoom_effect s =
     (if num_less (Fin 0) (width (imageDimensions s)) \<and>
         num_less (Fin 0) (width (containerDimensions s))
      then (let widthRatio = num_div (width (containerDimensions s)) (width (imageDimensions s));
                newZoom = (if num_less widthRatio (Fin 1) then widthRatio else Fin 1)
            in s\<lparr>optimalZoom := newZoom, zoomLevel := newZoom\<rparr>)
      else s)"

definition handleFitToContainer :: "Visualization \<Rightarrow> Visualization" where
  "handleFitToContainer s = s\<lparr>zoomLevel := optimalZoom s\<rparr>"

definition zoomOut :: "Visualization \<Rightarrow> Visualization" where
  "zoomOut s = s\<lparr>zoomLevel := Math_max lit_0_1 (num_sub (zoomLevel s) lit_0_1)\<rparr>"

definition zoomIn :: "Visualization \<Rightarrow> Visualization" where
  "zoomIn s = s\<lparr>zoomLevel := num_add (zoomLevel s) lit_0_1\<rparr>"

datatype vis_event =
    SetImageDimensions Dimensions
  | SetContainerDimensions Dimensions
  | SetIsFullScreen bool
  | ZoomOut
  | ZoomIn
  | FitToContainer

fun vis_step :: "Visualization \<Rightarrow> vis_event \<Rightarrow> Visualization" where
  "vis_step s (SetImageDimensions d) = zoom_effect (s\<lparr>imageDimensions := d\<rparr>)"
| "vis_step s (SetContainerDimensions d) = zoom_effect (s\<lparr>containerDimensions := d\<rparr>)"
| "vis_step s (SetIsFullScreen b) = s\<lparr>isFullScreen := b\<rparr>"
| "vis_step s ZoomOut = zoomOut s"
| "vis_step s ZoomIn = zoomIn s"
| "vis_step s FitToContainer = handleFitToContainer s"

definition vis_exec :: "vis_event list \<Rightarrow> Visualization \<Rightarrow> Visualization" where
  "vis_exec es s = foldl vis_step s es"

definition zoom_policy :: "number \<Rightarrow> number \<Rightarrow> number" where
  "zoom_policy containerWidth intrinsicWidth = Math_min (Fin 1) (num_div containerWidth intrinsicWidth)"

definition policy_inv :: "Visualization \<Rightarrow> bool" where
  "policy_inv s \<longleftrightarrow>
     \<not> (num_less (Fin 0) (width (imageDimensions s)) \<and>
        num_less (Fin 0) (width (containerDimensions s))) \<or>
     optimalZoom s = zoom_policy (width (containerDimensions s)) (width (imageDimensions s))"

lemma zoom_effect_policy:
  assumes "num_less (Fin 0) (width (imageDimensions s))"
    "num_less (Fin 0) (width (containerDimensions s))"
  shows "optimalZoom (zoom_effect s) =
           zoom_policy (width (containerDimensions s)) (width (imageDimensions s))"
    and "zoomLevel (zoom_effect s) =
           zoom_policy (width (containerDimensions s)) (width (imageDimensions s))"
proof -
  from assms obtain iw cw where w: "width (imageDimensions s) = Fin iw" "0 < iw"
    "width (containerDimensions s) = Fin cw" "0 < cw"
    by (cases "width (imageDimensions s)"; cases "width (containerDimensions s)") auto
  then show "optimalZoom (zoom_effect s) =
           zoom_policy (width (containerDimensions s)) (width (imageDimensions s))"
    and "zoomLevel (zoom_effect s) =
           zoom_policy (width (containerDimensions s)) (width (imageDimensions s))"
    by (simp_all add: zoom_effect_def zoom_policy_def Let_def min_def)
qed

lemma zoom_effect_dims [simp]:
  "imageDimensions (zoom_effect s) = imageDimensions s"
  "containerDimensions (zoom_effect s) = containerDimensions s"
  by (simp_all add: zoom_effect_def Let_def)

lemma zoom_effect_inv: "policy_inv (zoom_effect s)"
  using zoom_effect_policy(1)[of s] by (auto simp: policy_inv_def)

lemma vis_step_inv: "policy_inv s \<Longrightarrow> policy_inv (vis_step s e)"
  by (cases e)
     (simp_all add: zoom_effect_inv, simp_all add: policy_inv_def zoomOut_def zoomIn_def handleFitToContainer_def)

lemma vis_exec_inv: "policy_inv s \<Longrightarrow> policy_inv (vis_exec es s)"
  unfolding vis_exec_def by (induction es arbitrary: s) (simp_all add: vis_step_inv)

lemma policy_init: "policy_inv Visualization_init"
  by (simp add: policy_inv_def Visualization_init_def)

lemma zoom_policy_le_one: "\<not> num_less (Fin 1) (zoom_policy c w)"
  by (cases c; cases w) (simp_all add: zoom_policy_def)

definition trace_zoom :: "vis_event list" where
  "trace_zoom =
     [SetContainerDimensions \<lparr>width = Fin 800, height = Fin 600\<rparr>,
      SetImageDimensions \<lparr>width = Fin 1600, height = Fin 400\<rparr>, ZoomIn, ZoomIn]"

definition state_zoomed :: Visualization where
  "state_zoomed =
     \<lparr>zoomLevel = Fin (3152519739159347 / 4503599627370496), isFullScreen = False,
      imageDimensions = \<lparr>width = Fin 1600, height = Fin 400\<rparr>,
      containerDimensions = \<lparr>width = Fin 800, height = Fin 600\<rparr>,
      optimalZoom = Fin (1 / 2)\<rparr>"

lemma exec_trace_zoom: "vis_exec trace_zoom Visualization_init = state_zoomed"
  by code_simp

lemma policy_half: "zoom_policy (Fin 800) (Fin 1600) = Fin (1 / 2)"
  by code_simp

section \<open>Claims about the synthesizer\<close>

text \<open>
  C5 (Bell state example). For the circuit type \<open>bell_state\<close> with two qubits and the
  1024 shots of the source, the synthesizer produces exactly the counts \<open>00 \<mapsto> 491\<close>
  (the floor of \<open>1024 * 0.48\<close>) and \<open>11 \<mapsto> 533\<close> (the remainder), and the derived
  probability of \<open>00\<close> is \<open>491 / 1024\<close>, that is \<open>0.4794921875\<close>.
\<close>

theorem bell_state_example:
  "synthesize ''bell_state'' 2 =
     Inr \<lparr>counts = [(''00'', Fin 491), (''11'', Fin 533)], numQubits = 2,
          totalShots = Fin 1024,
          probabilities = [(''00'', Fin (491 / 1024)), (''11'', Fin (533 / 1024))]\<rparr>"
  by code_simp

text \<open>
  Conservation for non-empty circuit types. For every non-empty circuit type and every
  qubit count of at least 1, the counts of the synthesized table are non-negative
  integers whose sum is exactly the 1024 total shots, in every branch (\<open>bell_state\<close>,
  \<open>ghz_state\<close>, \<open>w_state\<close> and the fallback with its clamping and leftover assignment).
\<close>

theorem conservation_nonempty_type:
  assumes "ct \<noteq> []" "1 \<le> n"
  shows "conserves (simulate_counts ct n)"
  using assms
  by (simp add: simulate_counts_def bell_conserves ghz_conserves w_conserves other_counts_conserves)

theorem conservation_nonempty_type_witness:
  "conserves (simulate_counts ''custom'' 3)"
  using conservation_nonempty_type[of "''custom''" 3] by simp

text \<open>
  C4 (conservation) quantifies over every circuit type string, and it fails for the empty
  one. The fallback branch reads \<open>charCodeAt(0)\<close> of the type; on an empty string this is
  \<open>NaN\<close>, so with one qubit the table is the single outcome \<open>0\<close> with count \<open>NaN\<close>, and
  the leftover is never assigned because \<open>NaN > 0\<close> is false. The counts do not sum to
  1024 and are not non-negative integers.
\<close>

theorem conservation_empty_type_counterexample:
  "\<not> conserves (simulate_counts [] 1)"
  by code_simp

text \<open>
  C6 (W-state policy), as amended. For every qubit count \<open>n \<ge> 1\<close> the \<open>w_state\<close> table
  has exactly \<open>n\<close> outcomes, generated in the order \<open>i = 0, \<dots>, n - 1\<close>; outcome \<open>i\<close> is
  the string of \<open>n\<close> zeros with a single \<open>1\<close> at string index \<open>i\<close> (counted from the
  left); each of the first \<open>n - 1\<close> outcomes receives \<open>\<lfloor>1024 / n\<rfloor>\<close> shots and the last
  one the remaining shots. For three qubits this gives \<open>100 \<mapsto> 341\<close>, \<open>010 \<mapsto> 341\<close> and
  \<open>001 \<mapsto> 342\<close>.
\<close>

theorem w_state_policy:
  assumes "1 \<le> n"
  shows "simulate_counts ''w_state'' n =
    Inr (map (\<lambda>j. (onehot (nat n) j, Fin (of_int (1024 div n)))) [0..<nat n - 1] @
         [(onehot (nat n) (nat n - 1), Fin (of_int (1024 - (n - 1) * (1024 div n))))])"
  using w_counts_eq[OF assms] by (simp add: simulate_counts_def)

theorem w_state_policy_witness:
  "simulate_counts ''w_state'' 3 = Inr [(''100'', Fin 341), (''010'', Fin 341), (''001'', Fin 342)]"
  using w_state_policy[of 3] by (simp add: onehot_def upt_rec numeral_2_eq_2 numeral_3_eq_3)

text \<open>
  C6 as stated lists the outcomes of the example as \<open>001\<close>, \<open>010\<close>, \<open>100\<close> with the counts
  341, 341, 342 in that order. In the source the remainder 342 goes to \<open>001\<close>, the outcome
  generated last, and \<open>100\<close> receives 341.
\<close>

theorem w_state_example_counterexample:
  "\<not> w_example_as_listed (simulate_counts ''w_state'' 3)"
  by code_simp




text \<open>
  C9 (outcome shape), as amended. For every circuit type and every qubit count \<open>n \<ge> 1\<close>
  the outcomes of the table are pairwise distinct. The outcomes of \<open>bell_state\<close> are the
  fixed two-bit strings \<open>00\<close> and \<open>11\<close>; in every other branch each outcome is a
  bitstring (a string of the characters \<open>0\<close> and \<open>1\<close> only) of length exactly \<open>n\<close>. The \<open>w_state\<close> table has exactly \<open>n\<close> outcomes; every other
  table has at most \<open>min (2\<^sup>n) 16\<close>.
\<close>

theorem outcome_shape_per_branch:
  assumes "1 \<le> n"
  shows "outcome_shape_by_branch ct n (simulate_counts ct n)"
proof -
  consider "ct = ''bell_state''" | "ct = ''ghz_state''" | "ct = ''w_state''"
    | "ct \<noteq> ''bell_state''" "ct \<noteq> ''ghz_state''" "ct \<noteq> ''w_state''"
    by blast
  then show ?thesis
  proof cases
    case 1
    then show ?thesis using bell_shape[OF assms] by (simp add: simulate_counts_def)
  next
    case 2
    then show ?thesis using ghz_shape[OF assms] by (simp add: simulate_counts_def)
  next
    case 3
    then show ?thesis using w_shape[OF assms] by (simp add: simulate_counts_def)
  next
    case 4
    then show ?thesis using other_shape[OF assms, of ct] by (simp add: simulate_counts_def)
  qed
qed

theorem outcome_shape_per_branch_witness:
  "outcome_shape_by_branch ''custom'' 5 (simulate_counts ''custom'' 5)"
  by (rule outcome_shape_per_branch) simp

text \<open>
  C9 as stated asks for outcomes of length \<open>n\<close> and at most \<open>min (2\<^sup>n) 16\<close> of them in
  every branch. With three qubits the \<open>bell_state\<close> outcomes still have length 2, and with
  seventeen qubits the \<open>w_state\<close> table has seventeen outcomes.
\<close>

theorem outcome_shape_counterexample:
  "\<not> outcome_shape 3 (simulate_counts ''bell_state'' 3) \<and>
   \<not> outcome_shape 17 (simulate_counts ''w_state'' 17)"
  using bell_three_not_shaped w_seventeen_not_shaped by (rule conjI)

section \<open>Claims about the orchestrator\<close>

text \<open>
  C1 (gating invariant), as amended. In every state reached from the initial one, the
  Result Views are rendered if and only if an artifact is held in \<open>circuitData\<close>, no
  channel is generating, and the last settle commit still stands: no generation was
  started and no reset or tab switch happened since the last timer fired. So the views
  are never shown without an artifact or while a channel is generating, and they are
  present right after a commit of an artifact when no channel is in flight.
\<close>

theorem gating_invariant:
  assumes "exec es Layout_init = Some s"
  shows "rendersResultViews s \<longleftrightarrow>
           circuitData s \<noteq> None \<and> \<not> isGenerating s \<and> last_commit_stands es"
  using exec_showResults[OF assms]
  by (auto simp: rendersResultViews_def last_commit_stands_def Layout_init_def)

theorem gating_invariant_witness:
  "exec trace_commit Layout_init = Some state_committed \<and>
   last_commit_stands trace_commit \<and> rendersResultViews state_committed"
  using gating_invariant[OF exec_trace_commit] exec_trace_commit
  by (simp add: last_commit_stands_def trace_commit_def isGenerating_def Layout_init_def
        state_committed_def)

text \<open>
  C1 as stated has only two conditions: an artifact is committed and no channel is
  generating. After a committed generation, a second attempt on the same channel that
  fails leaves the first artifact in \<open>circuitData\<close> (\<open>handleStartGeneration\<close> only clears
  \<open>showResults\<close>) and no channel generating, and the Result Views are absent.
\<close>

theorem gating_counterexample:
  "map_option gating_as_stated (exec trace_failed_retry Layout_init) = Some False"
  by code_simp



text \<open>
  C3 (postcondition of starting a generation), as amended. \<open>handleStartGeneration\<close> marks
  the channel as generating, clears the measurement table and clears \<open>showResults\<close>, so
  that the Result Views are not rendered; the artifact held in \<open>circuitData\<close> is left
  unchanged.
\<close>

theorem start_generation_postcondition:
  "generating c (handleStartGeneration c s) \<and>
   simulationResults (handleStartGeneration c s) = None \<and>
   \<not> showResults (handleStartGeneration c s) \<and>
   \<not> rendersResultViews (handleStartGeneration c s) \<and>
   circuitData (handleStartGeneration c s) = circuitData s"
  by (cases c) (simp_all add: handleStartGeneration_def rendersResultViews_def)

text \<open>
  C3 as stated says that the committed artifact is absent from the state after the start.
  From a state that holds an artifact and a measurement table, starting a generation
  leaves the artifact in \<open>circuitData\<close>.
\<close>

theorem start_generation_counterexample:
  "map_option has_artifact_and_table (exec trace_measured Layout_init) = Some True \<and>
   map_option (start_clears_artifact Ch_text) (exec trace_measured Layout_init) = Some False"
  by code_simp

section \<open>Claim about diagram scaling\<close>

text \<open>
  C10 (diagram scaling policy). In every state the component reaches, when the intrinsic
  width and the container width are both positive, "fit to container" sets the zoom factor
  to \<open>min(1, containerWidth / intrinsicWidth)\<close>, the value the effect computed: it is
  never above 1, and invoking it twice yields the same state as invoking it once.
\<close>

theorem fit_to_container_policy:
  assumes "s = vis_exec es Visualization_init"
    and "num_less (Fin 0) (width (imageDimensions s))"
    and "num_less (Fin 0) (width (containerDimensions s))"
  shows "optimalZoom s =
           zoom_policy (width (containerDimensions s)) (width (imageDimensions s)) \<and>
         zoomLevel (handleFitToContainer s) =
           zoom_policy (width (containerDimensions s)) (width (imageDimensions s)) \<and>
         \<not> num_less (Fin 1) (zoomLevel (handleFitToContainer s)) \<and>
         handleFitToContainer (handleFitToContainer s) = handleFitToContainer s"
proof -
  have "policy_inv s" unfolding assms(1) by (intro vis_exec_inv policy_init)
  with assms(2,3) have "optimalZoom s =
      zoom_policy (width (containerDimensions s)) (width (imageDimensions s))"
    by (simp add: policy_inv_def)
  then show ?thesis
    by (simp add: handleFitToContainer_def zoom_policy_le_one)
qed

theorem fit_to_container_policy_witness:
  "vis_exec trace_zoom Visualization_init = state_zoomed \<and>
   zoomLevel state_zoomed = Fin (3152519739159347 / 4503599627370496) \<and>
   optimalZoom state_zoomed = zoom_policy (Fin 800) (Fin 1600) \<and>
   zoomLevel (handleFitToContainer state_zoomed) = zoom_policy (Fin 800) (Fin 1600) \<and>
   zoom_policy (Fin 800) (Fin 1600) = Fin (1 / 2)"
  using fit_to_container_policy[of state_zoomed trace_zoom] exec_trace_zoom policy_half
  by (simp add: state_zoomed_def)

end
